theory Spec2Isabelle
  imports Main "HOL-Library.Multiset"
begin

section \<open>Strings, errors and the random source\<close>

text \<open>
  The program is Python. A Python \<open>str\<close> is a sequence of code points; here a
  character is a \<^typ>\<open>char\<close> read as a code point below 256, which covers every
  literal of the program (its Swedish letters are \<open>0xE4\<close>, \<open>0xE5\<close>, \<open>0xF6\<close>
  and \<open>0xC5\<close>). Python integers are unbounded: \<^typ>\<open>int\<close>. An exception is
  a value of \<open>error\<close>, returned as \<open>Inl\<close>. Console output (\<open>print\<close>) is not
  part of any result and is left out. The values drawn from \<open>random\<close> are
  parameters of the functions that draw them.
\<close>

datatype error = ValueError | IndexError

text \<open>
  \<open>str.lower\<close> on code points below 256: the letters \<open>A\<close> to \<open>Z\<close> and the
  Latin-1 capitals \<open>0xC0\<close> to \<open>0xDE\<close> (but for the sign \<open>0xD7\<close>) move up by 32,
  every other character stays, and the string is lowered character by character.
\<close>

definition lower_char :: "char \<Rightarrow> char" where
  "lower_char c =
     (let n = (of_char c :: nat)
      in if (65 \<le> n \<and> n \<le> 90) \<or> (192 \<le> n \<and> n \<le> 222 \<and> n \<noteq> 215)
         then char_of (n + 32) else c)"

definition lower :: "string \<Rightarrow> string" where
  "lower s = map lower_char s"

text \<open>\<open>str(n)\<close> for an integer, as the f-strings of the program format it.\<close>

fun str_nat :: "nat \<Rightarrow> string" where
  "str_nat n =
     (if n < 10 then [char_of (48 + n)]
      else str_nat (n div 10) @ [char_of (48 + n mod 10)])"

declare str_nat.simps [simp del]

definition str_int :: "int \<Rightarrow> string" where
  "str_int i = (if i < 0 then CHR ''-'' # str_nat (nat (- i)) else str_nat (nat i))"

text \<open>\<open>sep.join(xs)\<close>.\<close>

fun join :: "string \<Rightarrow> string list \<Rightarrow> string" where
  "join sep [] = []"
| "join sep [x] = x"
| "join sep (x # y # ys) = x @ sep @ join sep (y # ys)"

section \<open>The data of the games\<close>

text \<open>
  \<open>BlackjackCard\<close>: a label and a numeric value (the field \<open>value\<close> of the
  source is \<open>card_value\<close> here).
\<close>

record BlackjackCard =
  label :: string
  card_value :: int

text \<open>
  \<open>Blackjack\<close>: both hands are built on the one \<open>BlackjackDeck\<close> object, so the
  state holds the deck once, next to the \<open>cards\<close> of either \<open>BlackjackHand\<close>.
  The deck is the Python list \<open>deck.cards\<close>; \<open>pop()\<close> takes its last element.
\<close>

record Blackjack =
  deck :: "BlackjackCard list"
  bankHand :: "BlackjackCard list"
  playerHand :: "BlackjackCard list"

text \<open>\<open>Hangman\<close>: the word, the set of guessed characters, the guesses left.\<close>

record Hangman =
  guessesLeft :: int
  word :: string
  guessed :: "char set"

text \<open>
  The subclasses of \<open>GameState\<close> that the games use, as one tagged union.
  (\<open>Menu\<close>, which only starts the games from the console, is not modelled.)
\<close>

datatype GameState =
    FinishedGame string
  | HangmanGame Hangman
  | RockScissorPaperGame
  | BlackjackGame Blackjack

text \<open>
  \<open>done\<close> and \<open>info\<close>: \<open>FinishedGame\<close> inherits \<open>done\<close> (True) from
  \<open>GameState\<close> and returns its message as \<open>info\<close>; every game overrides
  \<open>done\<close> with False and inherits the empty \<open>info\<close>.
\<close>

fun GameState_done :: "GameState \<Rightarrow> bool" where
  "GameState_done (FinishedGame message) = True"
| "GameState_done (HangmanGame h) = False"
| "GameState_done RockScissorPaperGame = False"
| "GameState_done (BlackjackGame b) = False"

fun GameState_info :: "GameState \<Rightarrow> string" where
  "GameState_info (FinishedGame message) = message"
| "GameState_info (HangmanGame h) = []"
| "GameState_info RockScissorPaperGame = []"
| "GameState_info (BlackjackGame b) = []"

definition FinishedGame_next :: "string \<Rightarrow> string \<Rightarrow> GameState" where
  "FinishedGame_next message answer = FinishedGame message"

section \<open>Hangman\<close>

text \<open>
  \<open>Hangman.next\<close>. The unpacking \<open>guessedChar,*_ = answer.lower()\<close> raises
  \<open>ValueError\<close> on the empty string. \<open>Hangman_next_gl\<close> and \<open>Hangman_next_g\<close>
  are the local variables \<open>gl\<close> and \<open>g\<close> of the method.
\<close>

definition Hangman_next_gl :: "Hangman \<Rightarrow> char \<Rightarrow> int" where
  "Hangman_next_gl self guessedChar =
     (let correctGuess = guessedChar \<in> set (lower (word self))
      in if guessedChar \<in> guessed self \<or> correctGuess
         then guessesLeft self else guessesLeft self - 1)"

definition Hangman_next_g :: "Hangman \<Rightarrow> char \<Rightarrow> char set" where
  "Hangman_next_g self guessedChar = guessed self \<union> set [guessedChar]"

definition Hangman_next :: "Hangman \<Rightarrow> string \<Rightarrow> error + GameState" where
  "Hangman_next self answer =
     (case lower answer of
        [] \<Rightarrow> Inl ValueError
      | guessedChar # _ \<Rightarrow>
          (let gl = Hangman_next_gl self guessedChar;
               g = Hangman_next_g self guessedChar;
               foundWord = set (lower (word self)) \<subseteq> g
           in Inr (if foundWord then FinishedGame (''Du hittade ordet '' @ word self)
                   else if gl < 1 then FinishedGame (''Du hittade inte ordet '' @ word self)
                   else HangmanGame \<lparr>guessesLeft = gl, word = word self, guessed = g\<rparr>)))"

subsection \<open>Hangman objects and the sets they refer to\<close>

text \<open>
  The default \<open>guessed: set[str] = set()\<close> of \<open>Hangman.__init__\<close> is
  evaluated once, when the \<open>def\<close> statement runs, and every call without a third
  argument receives that one object. To state which object holds which set, the sets
  live in a store (a list of sets, a reference is an index into it), and a Hangman
  object holds a reference. \<open>initial_store\<close> is the store once the class is
  defined: it holds the default set, at \<open>default_guessed\<close>. In
  \<open>Hangman_init n w g\<close> the arguments are \<open>guessesLeft\<close>, \<open>word\<close> and
  \<open>guessed\<close>, the last one \<open>None\<close> when the call gives no third argument.
\<close>

type_synonym store = "char set list"

record HangmanObj =
  obj_guessesLeft :: int
  obj_word :: string
  obj_guessed :: nat

datatype GameObj = FinishedObj string | HangmanAt HangmanObj

definition default_guessed :: nat where
  "default_guessed = 0"

definition initial_store :: store where
  "initial_store = [{}]"

definition Hangman_init :: "int \<Rightarrow> string \<Rightarrow> nat option \<Rightarrow> HangmanObj" where
  "Hangman_init n w g =
     \<lparr>obj_guessesLeft = n, obj_word = w,
      obj_guessed = (case g of None \<Rightarrow> default_guessed | Some r \<Rightarrow> r)\<rparr>"

text \<open>
  \<open>Hangman.create\<close>: \<open>random.choice(words)\<close> is the word at the drawn index,
  and raises \<open>IndexError\<close> on an empty list.
\<close>

definition Hangman_create :: "nat \<Rightarrow> int \<Rightarrow> string list \<Rightarrow> error + HangmanObj" where
  "Hangman_create choice n words =
     (if choice < length words then Inr (Hangman_init n (words ! choice) None)
      else Inl IndexError)"

text \<open>What an object looks like through its reference.\<close>

definition deref :: "store \<Rightarrow> HangmanObj \<Rightarrow> Hangman" where
  "deref st self =
     \<lparr>guessesLeft = obj_guessesLeft self, word = obj_word self,
      guessed = st ! obj_guessed self\<rparr>"

fun deref_game :: "store \<Rightarrow> GameObj \<Rightarrow> GameState" where
  "deref_game st (FinishedObj message) = FinishedGame message"
| "deref_game st (HangmanAt self) = HangmanGame (deref st self)"

text \<open>
  \<open>Hangman.next\<close> on objects: \<open>self.guessed.union([guessedChar])\<close> builds a new
  set object (allocated at the end of the store) and writes to no other.
\<close>

definition Hangman_next_obj :: "store \<Rightarrow> HangmanObj \<Rightarrow> string \<Rightarrow> error + (store \<times> GameObj)" where
  "Hangman_next_obj st self answer =
     (case lower answer of
        [] \<Rightarrow> Inl ValueError
      | guessedChar # _ \<Rightarrow>
          (let correctGuess = guessedChar \<in> set (lower (obj_word self));
               gl = (if guessedChar \<in> st ! obj_guessed self \<or> correctGuess
                     then obj_guessesLeft self else obj_guessesLeft self - 1);
               g = length st;
               st' = st @ [st ! obj_guessed self \<union> set [guessedChar]];
               foundWord = set (lower (obj_word self)) \<subseteq> st' ! g
           in Inr (st',
                   if foundWord then FinishedObj (''Du hittade ordet '' @ obj_word self)
                   else if gl < 1 then FinishedObj (''Du hittade inte ordet '' @ obj_word self)
                   else HangmanAt \<lparr>obj_guessesLeft = gl, obj_word = obj_word self,
                                   obj_guessed = g\<rparr>)))"

text \<open>
  The stores a program of \<open>Hangman\<close> calls can reach: the initial one, and the one
  after \<open>next\<close> on an object whose set exists.
\<close>

inductive reachable_store :: "store \<Rightarrow> bool" where
  store_initial: "reachable_store initial_store"
| store_next: "reachable_store st \<Longrightarrow> obj_guessed self < length st \<Longrightarrow>
     Hangman_next_obj st self answer = Inr (st', game) \<Longrightarrow> reachable_store st'"

section \<open>Rock, scissor, paper\<close>

definition alternatives :: "string list" where
  "alternatives = [''sten'', ''sax'', ''p'' @ [CHR 0xE5] @ ''se'']"

definition winsOver :: "nat list" where
  "winsOver = [1, 2, 0]"

text \<open>\<open>list.index\<close>: the first position of the element, \<open>ValueError\<close> when absent.\<close>

fun list_index :: "'a list \<Rightarrow> 'a \<Rightarrow> error + nat" where
  "list_index [] a = Inl ValueError"
| "list_index (x # xs) a =
     (if x = a then Inr 0
      else case list_index xs a of Inl e \<Rightarrow> Inl e | Inr i \<Rightarrow> Inr (Suc i))"

text \<open>
  \<open>RockScissorPaper.next\<close>. \<open>randint\<close> is the value that
  \<open>random.randint(0, len(self.alternatives)-1)\<close> returns; the subscript
  \<open>self.alternatives[computerChoiceIndex]\<close> raises \<open>IndexError\<close> out of range.
\<close>

definition RockScissorPaper_next :: "nat \<Rightarrow> string \<Rightarrow> error + GameState" where
  "RockScissorPaper_next randint answer =
     (if answer \<notin> set alternatives then Inr RockScissorPaperGame
      else case list_index alternatives answer of
        Inl e \<Rightarrow> Inl e
      | Inr userChoiceIndex \<Rightarrow>
          (let computerChoiceIndex = randint
           in if length alternatives \<le> computerChoiceIndex then Inl IndexError
              else let computerChoice = alternatives ! computerChoiceIndex
                   in if computerChoiceIndex = userChoiceIndex
                      then Inr (FinishedGame ''Oavgjort'')
                      else if winsOver ! userChoiceIndex = computerChoiceIndex
                      then Inr (FinishedGame (''Du vann mot '' @ computerChoice))
                      else Inr (FinishedGame
                             (''Du f'' @ [CHR 0xF6] @ ''rlorar mot '' @ computerChoice))))"

section \<open>Blackjack\<close>

subsection \<open>The deck\<close>

text \<open>
  \<open>random.shuffle(x)\<close> is the library's loop: for \<open>i\<close> from \<open>len(x) - 1\<close> down
  to 1, draw \<open>j\<close> from \<open>0..i\<close> and swap \<open>x[i]\<close> with \<open>x[j]\<close>. The draws are
  the list \<open>rs\<close>, each reduced into its range, a missing draw counting as 0, so that
  every list of naturals is a random source.
\<close>

fun shuffle_loop :: "nat \<Rightarrow> nat list \<Rightarrow> 'a list \<Rightarrow> 'a list" where
  "shuffle_loop 0 rs x = x"
| "shuffle_loop (Suc k) rs x =
     (let i = Suc k;
          j = (case rs of [] \<Rightarrow> 0 | r # _ \<Rightarrow> r mod (i + 1))
      in shuffle_loop k (tl rs) (x[i := x ! j, j := x ! i]))"

definition shuffle :: "nat list \<Rightarrow> 'a list \<Rightarrow> 'a list" where
  "shuffle rs x = shuffle_loop (length x - 1) rs x"

definition cardColor :: "string list" where
  "cardColor = [''Spader'', ''Hj'' @ [CHR 0xE4] @ ''rter'', ''Ruter'',
                ''Kl'' @ [CHR 0xF6] @ ''ver'']"

definition cardName :: "string list" where
  "cardName = [''Ess'', ''Tv'' @ [CHR 0xE5], ''Tre'', ''Fyra'', ''Fem'', ''Sex'', ''Sju'',
               [CHR 0xC5] @ ''tta'', ''Nio'', ''Tio'', ''Knekt'', ''Dam'', ''Kung'']"

definition cardValue :: "int list" where
  "cardValue = [11, 2, 3, 4, 5, 6, 7, 8, 9, 10, 10, 10, 10]"

text \<open>
  \<open>BlackjackDeck.__init__\<close>: the comprehension over \<open>range(1, 52)\<close>, then the
  shuffle.
\<close>

definition BlackjackDeck_cards :: "BlackjackCard list" where
  "BlackjackDeck_cards =
     map (\<lambda>i. \<lparr>label = cardColor ! (i mod 4) @ '' '' @ cardName ! (i mod 13),
                card_value = cardValue ! (i mod 13)\<rparr>) [1..<52]"

definition BlackjackDeck_init :: "nat list \<Rightarrow> BlackjackCard list" where
  "BlackjackDeck_init rs = shuffle rs BlackjackDeck_cards"

text \<open>\<open>drawCard\<close>: \<open>self.cards.pop()\<close>, \<open>IndexError\<close> on the empty list.\<close>

definition drawCard :: "BlackjackCard list \<Rightarrow> error + (BlackjackCard \<times> BlackjackCard list)" where
  "drawCard cards = (if cards = [] then Inl IndexError else Inr (last cards, butlast cards))"

subsection \<open>A hand\<close>

text \<open>A hand is its \<open>cards\<close> and the deck it draws from: \<open>(cards, deck)\<close>.\<close>

definition takeCard ::
  "BlackjackCard list \<times> BlackjackCard list \<Rightarrow> error + (BlackjackCard list \<times> BlackjackCard list)" where
  "takeCard hand =
     (case drawCard (snd hand) of
        Inl e \<Rightarrow> Inl e
      | Inr (c, deck') \<Rightarrow> Inr (fst hand @ [c], deck'))"

definition BlackjackHand_value :: "BlackjackCard list \<Rightarrow> int" where
  "BlackjackHand_value cards = foldl (\<lambda>a c. a + card_value c) 0 cards"

function takeCardsUntilValue ::
  "int \<Rightarrow> BlackjackCard list \<times> BlackjackCard list \<Rightarrow> error + (BlackjackCard list \<times> BlackjackCard list)" where
  "takeCardsUntilValue v hand =
     (if BlackjackHand_value (fst hand) < v
      then (case takeCard hand of Inl e \<Rightarrow> Inl e | Inr hand' \<Rightarrow> takeCardsUntilValue v hand')
      else Inr hand)"
  by pat_completeness auto
termination
  by (relation "measure (\<lambda>(v, hand). length (snd hand))")
     (auto simp: takeCard_def drawCard_def split: if_splits)

declare takeCardsUntilValue.simps [simp del]

subsection \<open>The game\<close>

text \<open>
  \<open>Blackjack.__init__\<close>: a fresh deck, two cards to the bank, then two to the
  player.
\<close>

definition Blackjack_init :: "nat list \<Rightarrow> error + Blackjack" where
  "Blackjack_init rs =
     (case takeCard ([], BlackjackDeck_init rs) of Inl e \<Rightarrow> Inl e | Inr b1 \<Rightarrow>
      case takeCard b1 of Inl e \<Rightarrow> Inl e | Inr b2 \<Rightarrow>
      case takeCard ([], snd b2) of Inl e \<Rightarrow> Inl e | Inr p1 \<Rightarrow>
      case takeCard p1 of Inl e \<Rightarrow> Inl e | Inr p2 \<Rightarrow>
      Inr \<lparr>deck = snd p2, bankHand = fst b2, playerHand = fst p2\<rparr>)"

text \<open>The text of \<open>Blackjack.end\<close>, with the last line (who won) as \<open>verdict\<close>.\<close>

definition end_message :: "BlackjackCard list \<Rightarrow> BlackjackCard list \<Rightarrow> string \<Rightarrow> string" where
  "end_message bank player verdict =
     [CHR 0x0A] @ replicate 12 CHR '' '' @ ''Bankens hand: '' @ join '', '' (map label bank)
       @ '', totalt v'' @ [CHR 0xE4] @ ''rde '' @ str_int (BlackjackHand_value bank)
     @ [CHR 0x0A] @ replicate 12 CHR '' '' @ ''Din hand: '' @ join '', '' (map label player)
       @ '', totalt v'' @ [CHR 0xE4] @ ''rde '' @ str_int (BlackjackHand_value player)
     @ [CHR 0x0A]
     @ [CHR 0x0A] @ replicate 12 CHR '' '' @ verdict
     @ [CHR 0x0A] @ replicate 28 CHR '' ''"

definition Blackjack_end :: "Blackjack \<Rightarrow> GameState" where
  "Blackjack_end self =
     (let bankValue = BlackjackHand_value (bankHand self);
          playerValue = BlackjackHand_value (playerHand self);
          playerWon = ((playerValue > bankValue \<and> playerValue \<le> 21) \<or> bankValue > 21)
      in FinishedGame (end_message (bankHand self) (playerHand self)
                         (if playerWon then ''Du vann'' else ''Banken vann'')))"

text \<open>
  \<open>Blackjack.next\<close> changes the hands and the deck in place and returns
  \<open>self\<close> or a \<open>FinishedGame\<close>: the result is the object after the call and the
  state returned.
\<close>

definition Blackjack_next :: "Blackjack \<Rightarrow> string \<Rightarrow> error + (Blackjack \<times> GameState)" where
  "Blackjack_next self answer =
     (if answer = ''stand'' then
        (case takeCardsUntilValue 17 (bankHand self, deck self) of
           Inl e \<Rightarrow> Inl e
         | Inr (cards, deck') \<Rightarrow>
             (let self' = self\<lparr>bankHand := cards, deck := deck'\<rparr>
              in Inr (self', Blackjack_end self')))
      else if answer = ''hit'' then
        (case takeCard (playerHand self, deck self) of
           Inl e \<Rightarrow> Inl e
         | Inr (cards, deck') \<Rightarrow>
             (let self' = self\<lparr>playerHand := cards, deck := deck'\<rparr>
              in if BlackjackHand_value (playerHand self') > 21
                 then Inr (self', Blackjack_end self')
                 else Inr (self', BlackjackGame self')))
      else Inr (self, BlackjackGame self))"

section \<open>The protocol: next and run\<close>

text \<open>
  \<open>next\<close> by the class of the state. \<open>randint\<close> is the draw that
  \<open>RockScissorPaper.next\<close> makes.
\<close>

fun GameState_next :: "nat \<Rightarrow> GameState \<Rightarrow> string \<Rightarrow> error + GameState" where
  "GameState_next randint (FinishedGame message) answer = Inr (FinishedGame_next message answer)"
| "GameState_next randint (HangmanGame h) answer = Hangman_next h answer"
| "GameState_next randint RockScissorPaperGame answer = RockScissorPaper_next randint answer"
| "GameState_next randint (BlackjackGame b) answer =
     (case Blackjack_next b answer of Inl e \<Rightarrow> Inl e | Inr (b', game) \<Rightarrow> Inr game)"

text \<open>
  \<open>GameState.run\<close> over the lines that \<open>input\<close> returns, each paired with the
  draw available to \<open>next\<close>: an empty line asks again, and the result is the state
  when the game is done or the lines are used up.
\<close>

fun GameState_run :: "GameState \<Rightarrow> (nat \<times> string) list \<Rightarrow> error + GameState" where
  "GameState_run game [] = Inr game"
| "GameState_run game ((randint, answer) # rest) =
     (if GameState_done game then Inr game
      else if answer = [] then GameState_run game rest
      else case GameState_next randint game answer of
             Inl e \<Rightarrow> Inl e
           | Inr game' \<Rightarrow> GameState_run game' rest)"

text \<open>\<open>next\<close> called once for every answer of a list, in order.\<close>

fun GameState_nexts :: "GameState \<Rightarrow> (nat \<times> string) list \<Rightarrow> error + GameState" where
  "GameState_nexts game [] = Inr game"
| "GameState_nexts game ((randint, answer) # rest) =
     (case GameState_next randint game answer of
        Inl e \<Rightarrow> Inl e
      | Inr game' \<Rightarrow> GameState_nexts game' rest)"

section \<open>The states a Blackjack game can be in\<close>

text \<open>
  A Blackjack object exists once \<open>__init__\<close> has dealt, and \<open>run\<close> keeps
  calling \<open>next\<close> on it for as long as \<open>next\<close> returns a game that is not
  done (which is the object itself).
\<close>

inductive reachable :: "Blackjack \<Rightarrow> bool" where
  reachable_init: "Blackjack_init rs = Inr self \<Longrightarrow> reachable self"
| reachable_next: "reachable self \<Longrightarrow> Blackjack_next self answer = Inr (self', game) \<Longrightarrow>
     \<not> GameState_done game \<Longrightarrow> reachable self'"

text \<open>
  What holds of every such state: the deck and the two hands are together the cards the
  deck was made of, the bank holds its two cards, and the player is at 21 or below
  unless the two cards dealt are all the player holds.
\<close>

definition Blackjack_inv :: "Blackjack \<Rightarrow> bool" where
  "Blackjack_inv self \<longleftrightarrow>
     mset (deck self @ bankHand self @ playerHand self) = mset BlackjackDeck_cards
     \<and> length (bankHand self) = 2
     \<and> (BlackjackHand_value (playerHand self) \<le> 21 \<or> length (playerHand self) = 2)"

section \<open>The finished game\<close>

text \<open>
  C6. A finished game is done, \<open>next\<close> returns it as it is, and so does any
  number of calls of \<open>next\<close>, whatever the answers: the state stays done and its
  message stays the text it was created with.
\<close>

theorem FinishedGame_absorbing:
  "GameState_done (FinishedGame m)
   \<and> GameState_info (FinishedGame m) = m
   \<and> GameState_next r (FinishedGame m) answer = Inr (FinishedGame m)
   \<and> GameState_nexts (FinishedGame m) inputs = Inr (FinishedGame m)"
proof -
  have "GameState_nexts (FinishedGame m) inputs = Inr (FinishedGame m)"
    by (induction inputs) (auto simp: FinishedGame_next_def)
  then show ?thesis by (simp add: FinishedGame_next_def)
qed

section \<open>Properties of Hangman\<close>

lemma lower_hd: "answer \<noteq> [] \<Longrightarrow> lower answer = lower_char (hd answer) # lower (tl answer)"
  by (cases answer) (simp_all add: lower_def)

lemma set_lower: "c \<in> set (lower w) \<longleftrightarrow> (\<exists>d \<in> set w. lower_char d = c)"
  by (auto simp: lower_def)

text \<open>
  C4. For a non-empty answer let \<open>c\<close> be its first character, lowered, and \<open>gl\<close>
  the guesses left that \<open>next\<close> computes. Then \<open>gl\<close> is one less than before
  exactly when \<open>c\<close> is neither among the guessed characters nor (lowered) in the
  word, and is unchanged otherwise, so it never grows; \<open>next\<close> returns, a state
  that is not finished carries \<open>gl\<close>, and guessing \<open>c\<close> again in that state costs
  nothing.
\<close>

theorem Hangman_next_guessesLeft:
  assumes "answer \<noteq> []"
    and "c = lower_char (hd answer)"
    and "gl = Hangman_next_gl self c"
  shows "(gl = guessesLeft self - 1 \<longleftrightarrow>
            c \<notin> guessed self \<and> \<not> (\<exists>d \<in> set (word self). lower_char d = c))
       \<and> (gl \<noteq> guessesLeft self - 1 \<longrightarrow> gl = guessesLeft self)
       \<and> gl \<le> guessesLeft self
       \<and> (\<exists>game. Hangman_next self answer = Inr game
             \<and> (\<not> GameState_done game \<longrightarrow>
                  game = HangmanGame \<lparr>guessesLeft = gl, word = word self,
                                       guessed = guessed self \<union> {c}\<rparr>))
       \<and> (\<forall>self'. Hangman_next self answer = Inr (HangmanGame self') \<longrightarrow>
             guessesLeft self' = gl \<and> Hangman_next_gl self' c = guessesLeft self')"
  using assms
  by (auto simp: Hangman_next_def Hangman_next_gl_def Hangman_next_g_def lower_hd set_lower Let_def
      split: if_splits)

theorem Hangman_next_guessesLeft_witness:
  "Hangman_next \<lparr>guessesLeft = 5, word = ''Apa'', guessed = {}\<rparr> ''Xyz'' =
     Inr (HangmanGame \<lparr>guessesLeft = 4, word = ''Apa'', guessed = {CHR ''x''}\<rparr>)
   \<and> Hangman_next_gl \<lparr>guessesLeft = 4, word = ''Apa'', guessed = {CHR ''x''}\<rparr> (CHR ''x'') = 4"
proof -
  let ?self = "\<lparr>guessesLeft = 5, word = ''Apa'', guessed = {}\<rparr>"
  have a: "''Xyz'' \<noteq> []" by simp
  have c: "CHR ''x'' = lower_char (hd ''Xyz'')" by code_simp
  have g: "4 = Hangman_next_gl ?self (CHR ''x'')" by code_simp
  have r: "Hangman_next ?self ''Xyz'' =
     Inr (HangmanGame \<lparr>guessesLeft = 4, word = ''Apa'', guessed = {CHR ''x''}\<rparr>)"
    by code_simp
  from Hangman_next_guessesLeft [OF a c g] r show ?thesis
    by simp
qed

text \<open>
  C5. For a non-empty answer, with \<open>c\<close>, \<open>gl\<close> as above and \<open>g\<close> the guessed
  characters with \<open>c\<close> added: \<open>next\<close> returns the finished game of a found word
  when every character of the lowered word is in \<open>g\<close>; if not, the finished game of
  a lost one when \<open>gl < 1\<close>; if not, the Hangman state of \<open>gl\<close> and \<open>g\<close>. So the
  result is finished exactly when the word is covered or \<open>gl < 1\<close>, and the two
  messages differ.
\<close>

theorem Hangman_next_resolution:
  assumes "answer \<noteq> []"
    and "c = lower_char (hd answer)"
    and "gl = Hangman_next_gl self c"
    and "g = guessed self \<union> {c}"
  shows "Hangman_next self answer =
           Inr (if set (lower (word self)) \<subseteq> g
                then FinishedGame (''Du hittade ordet '' @ word self)
                else if gl < 1
                then FinishedGame (''Du hittade inte ordet '' @ word self)
                else HangmanGame \<lparr>guessesLeft = gl, word = word self, guessed = g\<rparr>)
       \<and> (\<exists>game. Hangman_next self answer = Inr game
             \<and> (GameState_done game \<longleftrightarrow>
                  (\<forall>d \<in> set (word self). lower_char d \<in> g) \<or> gl < 1))
       \<and> ''Du hittade ordet '' @ word self \<noteq> ''Du hittade inte ordet '' @ word self"
  using assms
  by (auto simp: Hangman_next_def Hangman_next_g_def lower_hd set_lower Let_def subset_iff)

theorem Hangman_next_resolution_witness:
  "Hangman_next \<lparr>guessesLeft = 1, word = ''Apa'', guessed = {CHR ''a''}\<rparr> ''P'' =
     Inr (FinishedGame ''Du hittade ordet Apa'')
   \<and> Hangman_next \<lparr>guessesLeft = 1, word = ''Apa'', guessed = {CHR ''a''}\<rparr> ''q'' =
     Inr (FinishedGame ''Du hittade inte ordet Apa'')"
proof -
  let ?self = "\<lparr>guessesLeft = 1, word = ''Apa'', guessed = {CHR ''a''}\<rparr>"
  have a: "''P'' \<noteq> []" and b: "''q'' \<noteq> []" by simp_all
  have c: "CHR ''p'' = lower_char (hd ''P'')" and d: "CHR ''q'' = lower_char (hd ''q'')"
    by code_simp+
  have g: "1 = Hangman_next_gl ?self (CHR ''p'')" and h: "0 = Hangman_next_gl ?self (CHR ''q'')"
    by code_simp+
  have s: "{CHR ''a'', CHR ''p''} = guessed ?self \<union> {CHR ''p''}"
    and t: "{CHR ''a'', CHR ''q''} = guessed ?self \<union> {CHR ''q''}"
    by auto
  have w: "set (lower (word ?self)) \<subseteq> {CHR ''a'', CHR ''p''}"
    and l: "\<not> set (lower (word ?self)) \<subseteq> {CHR ''a'', CHR ''q''}"
    by code_simp+
  from Hangman_next_resolution [OF a c g s] Hangman_next_resolution [OF b d h t] w l
  show ?thesis by simp
qed

subsection \<open>Objects, the default set and the frame of next\<close>

text \<open>
  On objects whose set exists, \<open>next\<close> computes what it computes on values: the
  value model above is the object model seen through the references.
\<close>

lemma Hangman_next_obj_store:
  assumes "Hangman_next_obj st self answer = Inr (st', game)"
  shows "\<exists>c. st' = st @ [st ! obj_guessed self \<union> {c}]"
  using assms by (auto simp: Hangman_next_obj_def Let_def split: list.splits)

lemma Hangman_next_obj_frame:
  assumes "Hangman_next_obj st self answer = Inr (st', game)" and "r < length st"
  shows "st' ! r = st ! r"
  using Hangman_next_obj_store [OF assms(1)] assms(2) by (auto simp: nth_append)

lemma Hangman_next_obj_deref:
  assumes "obj_guessed self < length st"
  shows "Hangman_next (deref st self) answer =
           (case Hangman_next_obj st self answer of
              Inl e \<Rightarrow> Inl e
            | Inr (st', game) \<Rightarrow> Inr (deref_game st' game))"
  using assms
  by (auto simp: Hangman_next_def Hangman_next_obj_def Hangman_next_gl_def Hangman_next_g_def
      deref_def Let_def nth_append split: list.splits)

lemma reachable_store_default:
  "reachable_store st \<Longrightarrow> default_guessed < length st \<and> st ! default_guessed = {}"
proof (induction rule: reachable_store.induct)
  case store_initial
  show ?case by (simp add: initial_store_def default_guessed_def)
next
  case (store_next st self answer st' game)
  from Hangman_next_obj_store [OF store_next.hyps(3)] store_next.IH
  show ?case by (auto simp: nth_append)
qed

text \<open>
  C2, as stated, fails: \<open>Hangman.create\<close> calls the constructor without a third
  argument, and the two objects it makes for two words hold the same reference, that of
  the default set.
\<close>

theorem Hangman_default_shared_counterexample:
  "Hangman_create 0 5 [''Apa'', ''Giraff''] = Inr (Hangman_init 5 ''Apa'' None)
   \<and> Hangman_create 1 5 [''Apa'', ''Giraff''] = Inr (Hangman_init 5 ''Giraff'' None)
   \<and> obj_guessed (Hangman_init 5 ''Apa'' None) = default_guessed
   \<and> obj_guessed (Hangman_init 5 ''Giraff'' None) = obj_guessed (Hangman_init 5 ''Apa'' None)"
  by (simp add: Hangman_create_def Hangman_init_def)

text \<open>
  C2, amended. Every Hangman object made without a third argument refers to the one
  default set. In every store that calls of \<open>next\<close> can reach, that set is empty,
  and a call of \<open>next\<close> on any object changes no set that existed before it (it
  only adds a new one), so no other object sees different guessed characters after it.
\<close>

theorem Hangman_default_set_never_written:
  assumes "reachable_store st"
  shows "obj_guessed (Hangman_init n w None) = default_guessed
       \<and> guessed (deref st (Hangman_init n w None)) = {}
       \<and> (\<forall>self answer st' game. \<forall>other :: HangmanObj.
            Hangman_next_obj st self answer = Inr (st', game) \<longrightarrow>
            obj_guessed other < length st \<longrightarrow> deref st' other = deref st other)"
proof (intro conjI allI impI)
  show "obj_guessed (Hangman_init n w None) = default_guessed"
    by (simp add: Hangman_init_def)
  show "guessed (deref st (Hangman_init n w None)) = {}"
    using reachable_store_default [OF assms] by (simp add: deref_def Hangman_init_def)
next
  fix self answer st' game and other :: HangmanObj
  assume "Hangman_next_obj st self answer = Inr (st', game)" and "obj_guessed other < length st"
  then show "deref st' other = deref st other"
    by (simp add: deref_def Hangman_next_obj_frame)
qed

theorem Hangman_default_set_never_written_witness:
  "reachable_store initial_store
   \<and> Hangman_next_obj initial_store (Hangman_init 5 ''Apa'' None) ''a''
       = Inr ([{}, {CHR ''a''}],
              HangmanAt \<lparr>obj_guessesLeft = 5, obj_word = ''Apa'', obj_guessed = 1\<rparr>)
   \<and> deref [{}, {CHR ''a''}] (Hangman_init 5 ''Giraff'' None)
       = \<lparr>guessesLeft = 5, word = ''Giraff'', guessed = {}\<rparr>"
proof -
  have n: "Hangman_next_obj initial_store (Hangman_init 5 ''Apa'' None) ''a''
       = Inr ([{}, {CHR ''a''}],
              HangmanAt \<lparr>obj_guessesLeft = 5, obj_word = ''Apa'', obj_guessed = 1\<rparr>)"
    by code_simp
  have o: "obj_guessed (Hangman_init 5 ''Giraff'' None) < length initial_store"
    by (simp add: Hangman_init_def default_guessed_def initial_store_def)
  note T = Hangman_default_set_never_written [OF store_initial, of 5 "''Giraff''"]
  from T [THEN conjunct2, THEN conjunct2, rule_format, OF n o]
  have "deref [{}, {CHR ''a''}] (Hangman_init 5 ''Giraff'' None)
          = deref initial_store (Hangman_init 5 ''Giraff'' None)" .
  moreover from T have "guessed (deref initial_store (Hangman_init 5 ''Giraff'' None)) = {}"
    by simp
  ultimately have "deref [{}, {CHR ''a''}] (Hangman_init 5 ''Giraff'' None)
       = \<lparr>guessesLeft = 5, word = ''Giraff'', guessed = {}\<rparr>"
    by (simp add: deref_def Hangman_init_def)
  with n store_initial show ?thesis by simp
qed

section \<open>Properties of rock, scissor, paper\<close>

text \<open>
  C9. An answer that is none of the three alternatives returns the same state, which has
  no message. For the alternative at index \<open>i\<close> and the computer's draw \<open>k\<close> (both
  below 3): equal indices give the finished game of a draw, \<open>winsOver ! i = k\<close>
  gives the finished game of a win and anything else that of a loss, the last two
  naming the computer's alternative.
\<close>

theorem RockScissorPaper_next_outcome:
  "(answer \<notin> set alternatives \<longrightarrow>
      RockScissorPaper_next randint answer = Inr RockScissorPaperGame
      \<and> GameState_info RockScissorPaperGame = [])
   \<and> (\<forall>i < length alternatives. \<forall>k < length alternatives.
        RockScissorPaper_next k (alternatives ! i) =
          Inr (if k = i then FinishedGame ''Oavgjort''
               else if winsOver ! i = k
               then FinishedGame (''Du vann mot '' @ alternatives ! k)
               else FinishedGame (''Du f'' @ [CHR 0xF6] @ ''rlorar mot '' @ alternatives ! k)))"
  by (auto simp: RockScissorPaper_next_def alternatives_def winsOver_def less_Suc_eq numeral_3_eq_3)

theorem RockScissorPaper_next_outcome_witness:
  "RockScissorPaper_next 1 ''sten'' = Inr (FinishedGame ''Du vann mot sax'')
   \<and> RockScissorPaper_next 2 ''sten''
       = Inr (FinishedGame (''Du f'' @ [CHR 0xF6] @ ''rlorar mot p'' @ [CHR 0xE5] @ ''se''))
   \<and> RockScissorPaper_next 0 ''sten'' = Inr (FinishedGame ''Oavgjort'')
   \<and> RockScissorPaper_next 0 ''rock'' = Inr RockScissorPaperGame"
proof -
  have n: "''rock'' \<notin> set alternatives" by (simp add: alternatives_def)
  have i: "(0::nat) < length alternatives" "(1::nat) < length alternatives"
    "(2::nat) < length alternatives"
    by (simp_all add: alternatives_def)
  have s: "alternatives ! 0 = ''sten''" "alternatives ! 1 = ''sax''"
    "alternatives ! 2 = ''p'' @ [CHR 0xE5] @ ''se''" "winsOver ! 0 = 1"
    by (simp_all add: alternatives_def winsOver_def)
  note R = RockScissorPaper_next_outcome [of "''rock''" 0]
  from R n have "RockScissorPaper_next 0 ''rock'' = Inr RockScissorPaperGame" by simp
  moreover from R [THEN conjunct2, rule_format, OF i(1) i(2)] s
  have "RockScissorPaper_next 1 ''sten'' = Inr (FinishedGame ''Du vann mot sax'')" by simp
  moreover from R [THEN conjunct2, rule_format, OF i(1) i(3)] s
  have "RockScissorPaper_next 2 ''sten''
       = Inr (FinishedGame (''Du f'' @ [CHR 0xF6] @ ''rlorar mot p'' @ [CHR 0xE5] @ ''se''))"
    by simp
  moreover from R [THEN conjunct2, rule_format, OF i(1) i(1)] s
  have "RockScissorPaper_next 0 ''sten'' = Inr (FinishedGame ''Oavgjort'')" by simp
  ultimately show ?thesis by simp
qed

section \<open>Properties of Blackjack\<close>

lemma end_message_verdict:
  "end_message bank player v = end_message bank player v' \<longleftrightarrow> v = v'"
  by (simp add: end_message_def)

lemma Blackjack_end_done: "GameState_done (Blackjack_end self)"
  by (simp add: Blackjack_end_def Let_def)

lemma Blackjack_next_cases:
  assumes "Blackjack_next self answer = Inr (self', game)"
  shows "(answer = ''stand'' \<and> game = Blackjack_end self')
       \<or> (answer = ''hit'' \<and> BlackjackHand_value (playerHand self') > 21
            \<and> game = Blackjack_end self')
       \<or> (answer = ''hit'' \<and> \<not> BlackjackHand_value (playerHand self') > 21
            \<and> game = BlackjackGame self')
       \<or> (answer \<noteq> ''stand'' \<and> answer \<noteq> ''hit'' \<and> self' = self \<and> game = BlackjackGame self)"
proof (cases "answer = ''stand''")
  case True
  with assms show ?thesis
    by (auto simp: Blackjack_next_def Let_def split: sum.splits prod.splits)
next
  case False
  show ?thesis
  proof (cases "answer = ''hit''")
    case True
    with assms show ?thesis
      by (auto simp: Blackjack_next_def Let_def split: sum.splits prod.splits if_splits)
  next
    case False
    with \<open>answer \<noteq> ''stand''\<close> assms show ?thesis
      by (auto simp: Blackjack_next_def)
  qed
qed

text \<open>
  C3. \<open>end\<close> returns the finished game whose verdict is that the player won exactly
  when the player's value is above the bank's and at most 21, or the bank's value is
  above 21, and that the bank won otherwise (the two texts differ). \<open>next\<close> returns
  a finished game exactly on \<open>stand\<close> and on a \<open>hit\<close> that takes the player above
  21, and that finished game is \<open>end\<close> of the hands after the call; any other result
  is the game itself, not scored.
\<close>

theorem Blackjack_end_scoring:
  "Blackjack_end self =
     FinishedGame (end_message (bankHand self) (playerHand self)
       (if (BlackjackHand_value (playerHand self) > BlackjackHand_value (bankHand self)
             \<and> BlackjackHand_value (playerHand self) \<le> 21)
           \<or> BlackjackHand_value (bankHand self) > 21
        then ''Du vann'' else ''Banken vann''))
   \<and> end_message (bankHand self) (playerHand self) ''Du vann''
       \<noteq> end_message (bankHand self) (playerHand self) ''Banken vann''
   \<and> (\<forall>answer self' game. Blackjack_next self answer = Inr (self', game) \<longrightarrow>
         (GameState_done game \<longleftrightarrow>
            answer = ''stand''
            \<or> (answer = ''hit'' \<and> BlackjackHand_value (playerHand self') > 21))
         \<and> (GameState_done game \<longrightarrow> game = Blackjack_end self')
         \<and> (\<not> GameState_done game \<longrightarrow> game = BlackjackGame self'))"
proof (intro conjI allI impI)
  show "Blackjack_end self =
     FinishedGame (end_message (bankHand self) (playerHand self)
       (if (BlackjackHand_value (playerHand self) > BlackjackHand_value (bankHand self)
             \<and> BlackjackHand_value (playerHand self) \<le> 21)
           \<or> BlackjackHand_value (bankHand self) > 21
        then ''Du vann'' else ''Banken vann''))"
    by (simp add: Blackjack_end_def Let_def)
  show "end_message (bankHand self) (playerHand self) ''Du vann''
       \<noteq> end_message (bankHand self) (playerHand self) ''Banken vann''"
    by (simp add: end_message_verdict)
next
  fix answer self' game
  assume n: "Blackjack_next self answer = Inr (self', game)"
  from Blackjack_next_cases [OF n]
  show "GameState_done game \<longleftrightarrow>
            answer = ''stand''
            \<or> (answer = ''hit'' \<and> BlackjackHand_value (playerHand self') > 21)"
    using Blackjack_end_done [of self'] by auto
  {
    assume "GameState_done game"
    with Blackjack_next_cases [OF n] show "game = Blackjack_end self'" by auto
  }
  {
    assume "\<not> GameState_done game"
    with Blackjack_next_cases [OF n] Blackjack_end_done [of self']
    show "game = BlackjackGame self'" by auto
  }
qed

theorem Blackjack_end_scoring_witness:
  "Blackjack_next
     \<lparr>deck = [\<lparr>label = ''Spader Fem'', card_value = 5\<rparr>],
      bankHand = [\<lparr>label = ''Ruter Tio'', card_value = 10\<rparr>,
                  \<lparr>label = ''Ruter Sju'', card_value = 7\<rparr>],
      playerHand = [\<lparr>label = ''Spader Kung'', card_value = 10\<rparr>,
                    \<lparr>label = ''Spader Nio'', card_value = 9\<rparr>]\<rparr> ''stand''
   = Inr (\<lparr>deck = [\<lparr>label = ''Spader Fem'', card_value = 5\<rparr>],
           bankHand = [\<lparr>label = ''Ruter Tio'', card_value = 10\<rparr>,
                       \<lparr>label = ''Ruter Sju'', card_value = 7\<rparr>],
           playerHand = [\<lparr>label = ''Spader Kung'', card_value = 10\<rparr>,
                         \<lparr>label = ''Spader Nio'', card_value = 9\<rparr>]\<rparr>,
          FinishedGame (end_message
            [\<lparr>label = ''Ruter Tio'', card_value = 10\<rparr>, \<lparr>label = ''Ruter Sju'', card_value = 7\<rparr>]
            [\<lparr>label = ''Spader Kung'', card_value = 10\<rparr>, \<lparr>label = ''Spader Nio'', card_value = 9\<rparr>]
            ''Du vann''))"
proof -
  let ?s = "\<lparr>deck = [\<lparr>label = ''Spader Fem'', card_value = 5\<rparr>],
      bankHand = [\<lparr>label = ''Ruter Tio'', card_value = 10\<rparr>,
                  \<lparr>label = ''Ruter Sju'', card_value = 7\<rparr>],
      playerHand = [\<lparr>label = ''Spader Kung'', card_value = 10\<rparr>,
                    \<lparr>label = ''Spader Nio'', card_value = 9\<rparr>]\<rparr>"
  have n: "Blackjack_next ?s ''stand'' = Inr (?s, Blackjack_end ?s)"
    by (simp add: Blackjack_next_def takeCardsUntilValue.simps BlackjackHand_value_def Let_def)
  have v: "BlackjackHand_value (bankHand ?s) = 17" "BlackjackHand_value (playerHand ?s) = 19"
    by (simp_all add: BlackjackHand_value_def)
  from Blackjack_end_scoring [of ?s, THEN conjunct1] n v show ?thesis
    by simp
qed

subsection \<open>The deck, the hands and the invariant\<close>

lemma deck_length: "length BlackjackDeck_cards = 51"
  by (simp add: BlackjackDeck_cards_def)

lemma deck_values: "\<forall>c \<in> set BlackjackDeck_cards. 2 \<le> card_value c"
  by code_simp

lemma deck_distinct: "distinct (map label BlackjackDeck_cards)"
  by code_simp

lemma deck_no_ace_of_spades: "''Spader Ess'' \<notin> set (map label BlackjackDeck_cards)"
  by code_simp

lemma foldl_card_value:
  "foldl (\<lambda>a c. a + card_value c) a cards = a + sum_list (map card_value cards)"
  by (induction cards arbitrary: a) simp_all

lemma hand_value_sum: "BlackjackHand_value cards = sum_list (map card_value cards)"
  by (simp add: BlackjackHand_value_def foldl_card_value)

lemma hand_value_lower:
  "\<forall>c \<in> set cards. 2 \<le> card_value c \<Longrightarrow> 2 * int (length cards) \<le> BlackjackHand_value cards"
  by (induction cards) (auto simp: hand_value_sum)

lemma mset_shuffle_loop:
  "k < length x \<or> k = 0 \<Longrightarrow> mset (shuffle_loop k rs x) = mset x"
proof (induction k arbitrary: rs x)
  case 0
  show ?case by simp
next
  case (Suc k)
  then have k: "Suc k < length x" by simp
  define j where "j = (case rs of [] \<Rightarrow> 0 | r # _ \<Rightarrow> r mod (Suc k + 1))"
  have "j \<le> Suc k" by (auto simp: j_def split: list.splits intro: less_imp_le)
  then have j: "j < length x" using k by simp
  have "mset (x[Suc k := x ! j, j := x ! Suc k]) = mset x"
    using mset_swap [OF j k] .
  moreover have "mset (shuffle_loop k (tl rs) (x[Suc k := x ! j, j := x ! Suc k]))
      = mset (x[Suc k := x ! j, j := x ! Suc k])"
    using k by (intro Suc.IH) simp
  ultimately show ?case by (simp add: j_def Let_def)
qed

lemma mset_shuffle: "mset (shuffle rs x) = mset x"
  unfolding shuffle_def by (rule mset_shuffle_loop) (cases x, auto)

lemma mset_deck_init: "mset (BlackjackDeck_init rs) = mset BlackjackDeck_cards"
  by (simp add: BlackjackDeck_init_def mset_shuffle)

lemma takeCard_snoc: "takeCard (cards, d @ [c]) = Inr (cards @ [c], d)"
  by (simp add: takeCard_def drawCard_def)

lemma last_four:
  assumes "4 \<le> length xs"
  shows "\<exists>d c1 c2 c3 c4. xs = d @ [c4, c3, c2, c1]"
proof -
  have four: "\<exists>a b c d. ys = [a, b, c, d]" if "length ys = 4" for ys :: "'a list"
    using that by (auto simp: eval_nat_numeral length_Suc_conv)
  have "length (drop (length xs - 4) xs) = 4" using assms by simp
  from four [OF this] obtain c4 c3 c2 c1 where "drop (length xs - 4) xs = [c4, c3, c2, c1]"
    by blast
  then have "xs = take (length xs - 4) xs @ [c4, c3, c2, c1]"
    by (metis append_take_drop_id)
  then show ?thesis by blast
qed

lemma Blackjack_init_result:
  "\<exists>d c1 c2 c3 c4. BlackjackDeck_init rs = d @ [c4, c3, c2, c1]
     \<and> Blackjack_init rs = Inr \<lparr>deck = d, bankHand = [c1, c2], playerHand = [c3, c4]\<rparr>"
proof -
  have "length (BlackjackDeck_init rs) = 51"
    using mset_eq_length [OF mset_deck_init [of rs]] by (simp add: deck_length)
  then obtain d c1 c2 c3 c4 where d: "BlackjackDeck_init rs = d @ [c4, c3, c2, c1]"
    using last_four [of "BlackjackDeck_init rs"] by auto
  have "Blackjack_init rs = Inr \<lparr>deck = d, bankHand = [c1, c2], playerHand = [c3, c4]\<rparr>"
    unfolding Blackjack_init_def d
    using takeCard_snoc [of "[]" "d @ [c4, c3, c2]" c1] takeCard_snoc [of "[c1]" "d @ [c4, c3]" c2]
      takeCard_snoc [of "[]" "d @ [c4]" c3] takeCard_snoc [of "[c3]" "d" c4]
    by simp
  with d show ?thesis by blast
qed

lemma takeCardsUntilValue_result:
  assumes "\<forall>c \<in> set d. 2 \<le> card_value c"
    and "v - BlackjackHand_value cards \<le> 2 * int (length d)"
  shows "\<exists>k \<le> length d.
           takeCardsUntilValue v (cards, d) = Inr (cards @ take k (rev d), rev (drop k (rev d)))
         \<and> v \<le> BlackjackHand_value (cards @ take k (rev d))
         \<and> (\<forall>j < k. BlackjackHand_value (cards @ take j (rev d)) < v)
         \<and> 2 * int k \<le> max 0 (v - BlackjackHand_value cards + 1)"
  using assms
proof (induction d arbitrary: cards rule: rev_induct)
  case Nil
  then have "\<not> BlackjackHand_value cards < v" by simp
  then have "takeCardsUntilValue v (cards, []) = Inr (cards, [])"
    by (simp add: takeCardsUntilValue.simps)
  with \<open>\<not> BlackjackHand_value cards < v\<close> show ?case by simp
next
  case (snoc c d)
  show ?case
  proof (cases "BlackjackHand_value cards < v")
    case False
    then have "takeCardsUntilValue v (cards, d @ [c]) = Inr (cards, d @ [c])"
      by (simp add: takeCardsUntilValue.simps)
    with False show ?thesis
      by (intro exI [of _ 0]) simp
  next
    case True
    have c2: "2 \<le> card_value c" using snoc.prems(1) by simp
    have vals: "\<forall>c \<in> set d. 2 \<le> card_value c" using snoc.prems(1) by simp
    have enough: "v - BlackjackHand_value (cards @ [c]) \<le> 2 * int (length d)"
      using snoc.prems(2) c2 by (simp add: hand_value_sum)
    from snoc.IH [OF vals enough] obtain k where k: "k \<le> length d"
      and run: "takeCardsUntilValue v (cards @ [c], d)
                  = Inr ((cards @ [c]) @ take k (rev d), rev (drop k (rev d)))"
      and reached: "v \<le> BlackjackHand_value ((cards @ [c]) @ take k (rev d))"
      and before: "\<forall>j < k. BlackjackHand_value ((cards @ [c]) @ take j (rev d)) < v"
      and bound: "2 * int k \<le> max 0 (v - BlackjackHand_value (cards @ [c]) + 1)"
      by blast
    have step: "takeCardsUntilValue v (cards, d @ [c]) = takeCardsUntilValue v (cards @ [c], d)"
      using True by (simp add: takeCardsUntilValue.simps [of v "(cards, d @ [c])"] takeCard_snoc)
    have "Suc k \<le> length (d @ [c])" using k by simp
    moreover have "takeCardsUntilValue v (cards, d @ [c])
        = Inr (cards @ take (Suc k) (rev (d @ [c])), rev (drop (Suc k) (rev (d @ [c]))))"
      using step run by simp
    moreover have "v \<le> BlackjackHand_value (cards @ take (Suc k) (rev (d @ [c])))"
      using reached by simp
    moreover have "\<forall>j < Suc k. BlackjackHand_value (cards @ take j (rev (d @ [c]))) < v"
    proof (intro allI impI)
      fix j assume "j < Suc k"
      show "BlackjackHand_value (cards @ take j (rev (d @ [c]))) < v"
      proof (cases j)
        case 0
        with True show ?thesis by simp
      next
        case (Suc j')
        with \<open>j < Suc k\<close> before show ?thesis by simp
      qed
    qed
    moreover have "2 * int (Suc k) \<le> max 0 (v - BlackjackHand_value cards + 1)"
      using bound c2 True by (simp add: hand_value_sum)
    ultimately show ?thesis by blast
  qed
qed

lemma inv_init: "Blackjack_init rs = Inr self \<Longrightarrow> Blackjack_inv self"
proof -
  assume a: "Blackjack_init rs = Inr self"
  from Blackjack_init_result [of rs] obtain d c1 c2 c3 c4
    where d: "BlackjackDeck_init rs = d @ [c4, c3, c2, c1]"
      and s: "Blackjack_init rs = Inr \<lparr>deck = d, bankHand = [c1, c2], playerHand = [c3, c4]\<rparr>"
    by blast
  from a s have self: "self = \<lparr>deck = d, bankHand = [c1, c2], playerHand = [c3, c4]\<rparr>" by simp
  have "mset (d @ [c1, c2] @ [c3, c4]) = mset (BlackjackDeck_init rs)"
    unfolding d by simp
  then show ?thesis
    by (simp add: Blackjack_inv_def self mset_deck_init)
qed

lemma inv_values:
  assumes "Blackjack_inv self"
  shows "\<forall>c \<in> set (deck self) \<union> set (bankHand self) \<union> set (playerHand self). 2 \<le> card_value c"
proof -
  from assms have "set (deck self @ bankHand self @ playerHand self) = set BlackjackDeck_cards"
    unfolding Blackjack_inv_def by (blast dest: mset_eq_setD)
  with deck_values show ?thesis by auto
qed

lemma inv_count:
  assumes "Blackjack_inv self"
  shows "length (deck self) + length (bankHand self) + length (playerHand self) = 51"
proof -
  from assms have "length (deck self @ bankHand self @ playerHand self) = length BlackjackDeck_cards"
    unfolding Blackjack_inv_def by (blast dest: mset_eq_length)
  then show ?thesis by (simp add: deck_length)
qed

lemma inv_player_length:
  assumes "Blackjack_inv self"
  shows "length (playerHand self) \<le> 10"
proof -
  have "2 * int (length (playerHand self)) \<le> BlackjackHand_value (playerHand self)"
    using inv_values [OF assms] by (intro hand_value_lower) simp
  with assms show ?thesis unfolding Blackjack_inv_def by auto
qed

lemma inv_bank: "Blackjack_inv self \<Longrightarrow> length (bankHand self) = 2"
  by (simp add: Blackjack_inv_def)

lemma inv_deck_length:
  assumes "Blackjack_inv self"
  shows "39 \<le> length (deck self)"
  using inv_count [OF assms] inv_player_length [OF assms] inv_bank [OF assms] by simp

lemma hit_result:
  assumes "Blackjack_inv self"
  shows "\<exists>c d. deck self = d @ [c] \<and> 2 \<le> card_value c
           \<and> Blackjack_next self ''hit'' =
               Inr (self\<lparr>playerHand := playerHand self @ [c], deck := d\<rparr>,
                    if 21 < BlackjackHand_value (playerHand self @ [c])
                    then Blackjack_end (self\<lparr>playerHand := playerHand self @ [c], deck := d\<rparr>)
                    else BlackjackGame (self\<lparr>playerHand := playerHand self @ [c], deck := d\<rparr>))"
proof -
  from inv_deck_length [OF assms] have "deck self \<noteq> []" by auto
  then obtain d c where dc: "deck self = d @ [c]"
    by (metis append_butlast_last_id)
  have "2 \<le> card_value c" using inv_values [OF assms] dc by simp
  moreover have "Blackjack_next self ''hit'' =
               Inr (self\<lparr>playerHand := playerHand self @ [c], deck := d\<rparr>,
                    if 21 < BlackjackHand_value (playerHand self @ [c])
                    then Blackjack_end (self\<lparr>playerHand := playerHand self @ [c], deck := d\<rparr>)
                    else BlackjackGame (self\<lparr>playerHand := playerHand self @ [c], deck := d\<rparr>))"
    by (simp add: Blackjack_next_def dc takeCard_snoc Let_def)
  ultimately show ?thesis using dc by blast
qed

lemma inv_hit:
  assumes "Blackjack_inv self" and "deck self = d @ [c]"
    and "\<not> 21 < BlackjackHand_value (playerHand self @ [c])"
  shows "Blackjack_inv (self\<lparr>playerHand := playerHand self @ [c], deck := d\<rparr>)"
  using assms by (simp add: Blackjack_inv_def)

lemma stand_result:
  assumes "Blackjack_inv self"
  shows "\<exists>k \<le> length (deck self). k \<le> 7
           \<and> Blackjack_next self ''stand'' =
               Inr (self\<lparr>bankHand := bankHand self @ take k (rev (deck self)),
                         deck := rev (drop k (rev (deck self)))\<rparr>,
                    Blackjack_end (self\<lparr>bankHand := bankHand self @ take k (rev (deck self)),
                                       deck := rev (drop k (rev (deck self)))\<rparr>))
           \<and> 17 \<le> BlackjackHand_value (bankHand self @ take k (rev (deck self)))
           \<and> (\<forall>j < k. BlackjackHand_value (bankHand self @ take j (rev (deck self))) < 17)"
proof -
  have vals: "\<forall>c \<in> set (deck self). 2 \<le> card_value c"
    using inv_values [OF assms] by simp
  have "2 * int (length (bankHand self)) \<le> BlackjackHand_value (bankHand self)"
    using inv_values [OF assms] by (intro hand_value_lower) simp
  then have bank: "4 \<le> BlackjackHand_value (bankHand self)"
    using inv_bank [OF assms] by simp
  have enough: "17 - BlackjackHand_value (bankHand self) \<le> 2 * int (length (deck self))"
    using bank inv_deck_length [OF assms] by simp
  from takeCardsUntilValue_result [OF vals enough] obtain k where k: "k \<le> length (deck self)"
    and run: "takeCardsUntilValue 17 (bankHand self, deck self)
                = Inr (bankHand self @ take k (rev (deck self)), rev (drop k (rev (deck self))))"
    and reached: "17 \<le> BlackjackHand_value (bankHand self @ take k (rev (deck self)))"
    and before: "\<forall>j < k. BlackjackHand_value (bankHand self @ take j (rev (deck self))) < 17"
    and bound: "2 * int k \<le> max 0 (17 - BlackjackHand_value (bankHand self) + 1)"
    by blast
  from bound bank have "k \<le> 7" by simp
  moreover have "Blackjack_next self ''stand'' =
               Inr (self\<lparr>bankHand := bankHand self @ take k (rev (deck self)),
                         deck := rev (drop k (rev (deck self)))\<rparr>,
                    Blackjack_end (self\<lparr>bankHand := bankHand self @ take k (rev (deck self)),
                                       deck := rev (drop k (rev (deck self)))\<rparr>))"
    by (simp add: Blackjack_next_def run Let_def)
  ultimately show ?thesis using k reached before by blast
qed

lemma reachable_inv: "reachable self \<Longrightarrow> Blackjack_inv self"
proof (induction rule: reachable.induct)
  case (reachable_init rs self)
  then show ?case by (rule inv_init)
next
  case (reachable_next self answer self' game)
  from Blackjack_next_cases [OF reachable_next.hyps(2)] reachable_next.hyps(3)
    Blackjack_end_done [of self']
  consider (hit) "answer = ''hit''" "\<not> 21 < BlackjackHand_value (playerHand self')"
    | (other) "self' = self"
    by auto
  then show ?case
  proof cases
    case hit
    from hit_result [OF reachable_next.IH] obtain c d where dc: "deck self = d @ [c]"
      and n: "Blackjack_next self ''hit'' =
               Inr (self\<lparr>playerHand := playerHand self @ [c], deck := d\<rparr>,
                    if 21 < BlackjackHand_value (playerHand self @ [c])
                    then Blackjack_end (self\<lparr>playerHand := playerHand self @ [c], deck := d\<rparr>)
                    else BlackjackGame (self\<lparr>playerHand := playerHand self @ [c], deck := d\<rparr>))"
      by blast
    from n reachable_next.hyps(2) hit(1)
    have s': "self' = self\<lparr>playerHand := playerHand self @ [c], deck := d\<rparr>" by simp
    with hit(2) have "\<not> 21 < BlackjackHand_value (playerHand self @ [c])" by simp
    from inv_hit [OF reachable_next.IH dc this] s' show ?thesis by simp
  next
    case other
    with reachable_next.IH show ?thesis by simp
  qed
qed

subsection \<open>Deck, hit, stand and the size of the hands\<close>

lemma init_succeeds: "Blackjack_init rs = Inr (projr (Blackjack_init rs))"
  using Blackjack_init_result [of rs] by auto

lemma reachable_start: "reachable (projr (Blackjack_init rs))"
  by (rule reachable_init) (rule init_succeeds)

text \<open>
  C1 asks for 52 distinct cards in a new deck. The comprehension runs over
  \<open>range(1, 52)\<close>, which leaves out \<open>i = 0\<close>: whatever the shuffle, a new deck
  has 51 cards with distinct labels, the ace of spades (\<open>Spader Ess\<close>) is not among
  them, and the deck is a rearrangement of the comprehension's list.
\<close>

theorem BlackjackDeck_init_has_51_cards:
  "length (BlackjackDeck_init rs) = 51
   \<and> distinct (map label (BlackjackDeck_init rs))
   \<and> ''Spader Ess'' \<notin> set (map label (BlackjackDeck_init rs))
   \<and> mset (BlackjackDeck_init rs) = mset BlackjackDeck_cards"
proof -
  note m = mset_deck_init [of rs]
  have "length (BlackjackDeck_init rs) = 51"
    using mset_eq_length [OF m] by (simp add: deck_length)
  moreover have "mset (map label (BlackjackDeck_init rs)) = mset (map label BlackjackDeck_cards)"
    using m by (metis mset_map)
  then have "distinct (map label (BlackjackDeck_init rs))"
    using deck_distinct by (metis mset_eq_imp_distinct_iff)
  moreover have "set (BlackjackDeck_init rs) = set BlackjackDeck_cards"
    using m by (rule mset_eq_setD)
  then have "''Spader Ess'' \<notin> set (map label (BlackjackDeck_init rs))"
    using deck_no_ace_of_spades by simp
  ultimately show ?thesis using m by simp
qed

text \<open>
  C7. In every reachable state the deck has a last card \<open>c\<close>, of positive value, and
  \<open>hit\<close> moves it to the player's hand, whose value grows by the value of \<open>c\<close>;
  the bank's hand is untouched. If the new value is above 21 the result is the finished
  game that \<open>end\<close> makes of these hands; otherwise it is the game itself, not done
  and reachable again.
\<close>

theorem Blackjack_hit:
  assumes "reachable self"
  shows "\<exists>c d self'. deck self = d @ [c]
           \<and> self' = self\<lparr>playerHand := playerHand self @ [c], deck := d\<rparr>
           \<and> 0 < card_value c
           \<and> BlackjackHand_value (playerHand self')
               = BlackjackHand_value (playerHand self) + card_value c
           \<and> BlackjackHand_value (playerHand self) < BlackjackHand_value (playerHand self')
           \<and> bankHand self' = bankHand self
           \<and> (if 21 < BlackjackHand_value (playerHand self')
               then Blackjack_next self ''hit'' = Inr (self', Blackjack_end self')
                    \<and> GameState_done (Blackjack_end self')
               else Blackjack_next self ''hit'' = Inr (self', BlackjackGame self')
                    \<and> \<not> GameState_done (BlackjackGame self') \<and> reachable self')"
proof -
  from assms have inv: "Blackjack_inv self" by (rule reachable_inv)
  from hit_result [OF inv] obtain c d where dc: "deck self = d @ [c]"
    and c: "2 \<le> card_value c"
    and n: "Blackjack_next self ''hit'' =
               Inr (self\<lparr>playerHand := playerHand self @ [c], deck := d\<rparr>,
                    if 21 < BlackjackHand_value (playerHand self @ [c])
                    then Blackjack_end (self\<lparr>playerHand := playerHand self @ [c], deck := d\<rparr>)
                    else BlackjackGame (self\<lparr>playerHand := playerHand self @ [c], deck := d\<rparr>))"
    by blast
  define self' where "self' = self\<lparr>playerHand := playerHand self @ [c], deck := d\<rparr>"
  have v: "BlackjackHand_value (playerHand self')
             = BlackjackHand_value (playerHand self) + card_value c"
    by (simp add: self'_def hand_value_sum)
  have r: "reachable self'" if "\<not> 21 < BlackjackHand_value (playerHand self')"
  proof -
    from that n have "Blackjack_next self ''hit'' = Inr (self', BlackjackGame self')"
      by (simp add: self'_def)
    from reachable_next [OF assms this] show ?thesis by simp
  qed
  have "if 21 < BlackjackHand_value (playerHand self')
        then Blackjack_next self ''hit'' = Inr (self', Blackjack_end self')
             \<and> GameState_done (Blackjack_end self')
        else Blackjack_next self ''hit'' = Inr (self', BlackjackGame self')
             \<and> \<not> GameState_done (BlackjackGame self') \<and> reachable self'"
    using n r Blackjack_end_done [of self'] by (simp add: self'_def)
  moreover have "bankHand self' = bankHand self" by (simp add: self'_def)
  ultimately show ?thesis using dc c v self'_def by (intro exI [of _ c] exI [of _ d] exI [of _ self']) simp
qed

theorem Blackjack_hit_witness:
  "reachable (projr (Blackjack_init [0, 0, 1, 2, 3]))
   \<and> BlackjackHand_value (playerHand (projr (Blackjack_init [0, 0, 1, 2, 3]))) = 7
   \<and> BlackjackHand_value
       (playerHand (fst (projr (Blackjack_next (projr (Blackjack_init [0, 0, 1, 2, 3])) ''hit'')))) = 12
   \<and> \<not> GameState_done (snd (projr (Blackjack_next (projr (Blackjack_init [0, 0, 1, 2, 3])) ''hit'')))"
proof -
  let ?s = "projr (Blackjack_init [0, 0, 1, 2, 3])"
  have r: "reachable ?s"
    using Blackjack_init_result [of "[0, 0, 1, 2, 3]"] by (auto intro: reachable_init)
  have p: "BlackjackHand_value (playerHand ?s) = 7" by code_simp
  have l: "card_value (last (deck ?s)) = 5" by code_simp
  from Blackjack_hit [OF r] obtain c d self' where dc: "deck ?s = d @ [c]"
    and v: "BlackjackHand_value (playerHand self') = BlackjackHand_value (playerHand ?s) + card_value c"
    and n: "if 21 < BlackjackHand_value (playerHand self')
            then Blackjack_next ?s ''hit'' = Inr (self', Blackjack_end self')
                 \<and> GameState_done (Blackjack_end self')
            else Blackjack_next ?s ''hit'' = Inr (self', BlackjackGame self')
                 \<and> \<not> GameState_done (BlackjackGame self') \<and> reachable self'"
    by blast
  from dc l have "card_value c = 5" by simp
  with v p have v': "BlackjackHand_value (playerHand self') = 12" by simp
  with n have "Blackjack_next ?s ''hit'' = Inr (self', BlackjackGame self')" by simp
  with r p v' show ?thesis by simp
qed

text \<open>
  C8. In every reachable state \<open>stand\<close> moves some number \<open>k\<close> of cards from the
  end of the deck to the bank's hand and returns the finished game that \<open>end\<close> makes:
  the bank's value is then at least 17, it was below 17 before each of the \<open>k\<close>
  draws, and the player's hand is untouched.
\<close>

theorem Blackjack_stand:
  assumes "reachable self"
  shows "\<exists>k self'. k \<le> length (deck self)
           \<and> self' = self\<lparr>bankHand := bankHand self @ take k (rev (deck self)),
                            deck := rev (drop k (rev (deck self)))\<rparr>
           \<and> Blackjack_next self ''stand'' = Inr (self', Blackjack_end self')
           \<and> GameState_done (Blackjack_end self')
           \<and> 17 \<le> BlackjackHand_value (bankHand self')
           \<and> (\<forall>j < k. BlackjackHand_value (bankHand self @ take j (rev (deck self))) < 17)
           \<and> playerHand self' = playerHand self"
proof -
  from assms have inv: "Blackjack_inv self" by (rule reachable_inv)
  from stand_result [OF inv] obtain k where k: "k \<le> length (deck self)"
    and n: "Blackjack_next self ''stand'' =
               Inr (self\<lparr>bankHand := bankHand self @ take k (rev (deck self)),
                         deck := rev (drop k (rev (deck self)))\<rparr>,
                    Blackjack_end (self\<lparr>bankHand := bankHand self @ take k (rev (deck self)),
                                       deck := rev (drop k (rev (deck self)))\<rparr>))"
    and reached: "17 \<le> BlackjackHand_value (bankHand self @ take k (rev (deck self)))"
    and before: "\<forall>j < k. BlackjackHand_value (bankHand self @ take j (rev (deck self))) < 17"
    by blast
  define self' where "self' = self\<lparr>bankHand := bankHand self @ take k (rev (deck self)),
                            deck := rev (drop k (rev (deck self)))\<rparr>"
  have "Blackjack_next self ''stand'' = Inr (self', Blackjack_end self')"
    using n by (simp add: self'_def)
  moreover have "17 \<le> BlackjackHand_value (bankHand self')"
    using reached by (simp add: self'_def)
  moreover have "playerHand self' = playerHand self" by (simp add: self'_def)
  ultimately show ?thesis
    using k before self'_def Blackjack_end_done [of self']
    by (intro exI [of _ k] exI [of _ self']) simp
qed

theorem Blackjack_stand_witness:
  "reachable (projr (Blackjack_init [0, 0, 1, 2, 3]))
   \<and> BlackjackHand_value (bankHand (projr (Blackjack_init [0, 0, 1, 2, 3]))) = 12
   \<and> 17 \<le> BlackjackHand_value
       (bankHand (fst (projr (Blackjack_next (projr (Blackjack_init [0, 0, 1, 2, 3])) ''stand''))))
   \<and> GameState_done (snd (projr (Blackjack_next (projr (Blackjack_init [0, 0, 1, 2, 3])) ''stand'')))"
proof -
  let ?s = "projr (Blackjack_init [0, 0, 1, 2, 3])"
  have r: "reachable ?s"
    using Blackjack_init_result [of "[0, 0, 1, 2, 3]"] by (auto intro: reachable_init)
  have b: "BlackjackHand_value (bankHand ?s) = 12" by code_simp
  from Blackjack_stand [OF r] obtain k self'
    where "Blackjack_next ?s ''stand'' = Inr (self', Blackjack_end self')"
      and "GameState_done (Blackjack_end self')"
      and "17 \<le> BlackjackHand_value (bankHand self')"
    by blast
  with r b show ?thesis by simp
qed

lemma next_counts:
  assumes "Blackjack_inv self"
  shows "\<exists>self' game. Blackjack_next self answer = Inr (self', game)
           \<and> length (bankHand self') + length (playerHand self') \<le> 21
           \<and> length (deck self') + length (bankHand self') + length (playerHand self') = 51"
proof -
  note cnt = inv_count [OF assms] and pl = inv_player_length [OF assms] and bk = inv_bank [OF assms]
  consider (stand) "answer = ''stand''" | (hit) "answer = ''hit''"
    | (other) "answer \<noteq> ''stand''" "answer \<noteq> ''hit''"
    by blast
  then show ?thesis
  proof cases
    case stand
    from stand_result [OF assms] obtain k where k: "k \<le> length (deck self)" "k \<le> 7"
      and n: "Blackjack_next self ''stand'' =
               Inr (self\<lparr>bankHand := bankHand self @ take k (rev (deck self)),
                         deck := rev (drop k (rev (deck self)))\<rparr>,
                    Blackjack_end (self\<lparr>bankHand := bankHand self @ take k (rev (deck self)),
                                       deck := rev (drop k (rev (deck self)))\<rparr>))"
      by blast
    show ?thesis
      unfolding stand n using k cnt pl bk by simp
  next
    case hit
    from hit_result [OF assms] obtain c d where dc: "deck self = d @ [c]"
      and n: "Blackjack_next self ''hit'' =
               Inr (self\<lparr>playerHand := playerHand self @ [c], deck := d\<rparr>,
                    if 21 < BlackjackHand_value (playerHand self @ [c])
                    then Blackjack_end (self\<lparr>playerHand := playerHand self @ [c], deck := d\<rparr>)
                    else BlackjackGame (self\<lparr>playerHand := playerHand self @ [c], deck := d\<rparr>))"
      by blast
    show ?thesis
      unfolding hit n using dc cnt pl bk by simp
  next
    case other
    then have "Blackjack_next self answer = Inr (self, BlackjackGame self)"
      by (simp add: Blackjack_next_def)
    then show ?thesis using cnt pl bk by simp
  qed
qed

lemma run_finished: "GameState_run (FinishedGame m) inputs = Inr (FinishedGame m)"
  by (cases inputs) auto

lemma run_reachable:
  "reachable self \<Longrightarrow> \<exists>game. GameState_run (BlackjackGame self) inputs = Inr game"
proof (induction inputs arbitrary: self)
  case Nil
  show ?case by simp
next
  case (Cons input inputs)
  obtain randint answer where input: "input = (randint, answer)" by (cases input)
  show ?case
  proof (cases "answer = []")
    case True
    with Cons input show ?thesis by simp
  next
    case False
    from next_counts [OF reachable_inv [OF Cons.prems], of answer]
    obtain self' game where n: "Blackjack_next self answer = Inr (self', game)" by blast
    show ?thesis
    proof (cases "GameState_done game")
      case True
      with Blackjack_next_cases [OF n] have "game = Blackjack_end self'" by auto
      then obtain m where "game = FinishedGame m" by (simp add: Blackjack_end_def Let_def)
      with n False input show ?thesis by (simp add: run_finished)
    next
      case notdone: False
      with Blackjack_next_cases [OF n] Blackjack_end_done [of self']
      have g: "game = BlackjackGame self'" by auto
      from reachable_next [OF Cons.prems n notdone] have "reachable self'" .
      from Cons.IH [OF this] g n False input show ?thesis by simp
    qed
  qed
qed

text \<open>
  C10. Creating a game succeeds and \<open>run\<close> from it never raises, for any shuffle
  and any input lines; and in every reachable state \<open>next\<close> returns, for any
  answer, with at most 21 cards in the two hands together and the other cards of the 51
  still in the deck.
\<close>

theorem Blackjack_deck_never_exhausted:
  "(\<exists>self. Blackjack_init rs = Inr self
       \<and> (\<exists>game. GameState_run (BlackjackGame self) inputs = Inr game))
   \<and> (\<forall>self. reachable self \<longrightarrow>
         (\<exists>self' game. Blackjack_next self answer = Inr (self', game)
            \<and> length (bankHand self') + length (playerHand self') \<le> 21
            \<and> length (deck self') + length (bankHand self') + length (playerHand self') = 51))"
proof (intro conjI allI impI)
  from run_reachable [OF reachable_start, of rs inputs] init_succeeds [of rs]
  show "\<exists>self. Blackjack_init rs = Inr self
       \<and> (\<exists>game. GameState_run (BlackjackGame self) inputs = Inr game)"
    by blast
next
  fix self assume "reachable self"
  then have "Blackjack_inv self" by (rule reachable_inv)
  then show "\<exists>self' game. Blackjack_next self answer = Inr (self', game)
            \<and> length (bankHand self') + length (playerHand self') \<le> 21
            \<and> length (deck self') + length (bankHand self') + length (playerHand self') = 51"
    by (rule next_counts)
qed

theorem Blackjack_deck_never_exhausted_witness:
  "reachable (projr (Blackjack_init [0, 0, 1, 2, 3]))
   \<and> length (deck (projr (Blackjack_init [0, 0, 1, 2, 3]))) = 47
   \<and> isl (Blackjack_next (projr (Blackjack_init [0, 0, 1, 2, 3])) ''stand'') = False
   \<and> isl (GameState_run (BlackjackGame (projr (Blackjack_init [0, 0, 1, 2, 3])))
            [(0, ''hit''), (0, ''''), (0, ''stand'')]) = False"
proof -
  let ?rs = "[0, 0, 1, 2, 3]"
  let ?s = "projr (Blackjack_init ?rs)"
  let ?inputs = "[(0, ''hit''), (0, ''''), (0, ''stand'')]"
  note T = Blackjack_deck_never_exhausted [of ?rs ?inputs "''stand''"]
  have r: "reachable ?s"
    using Blackjack_init_result [of ?rs] by (auto intro: reachable_init)
  have l: "length (deck ?s) = 47" by code_simp
  from T [THEN conjunct2, rule_format, OF r]
  have "isl (Blackjack_next ?s ''stand'') = False" by auto
  moreover from T [THEN conjunct1]
  have "isl (GameState_run (BlackjackGame ?s) ?inputs) = False" by auto
  ultimately show ?thesis using r l by simp
qed

end
